theory Spec2Isabelle
  imports
    Main
    "HOL-Library.Word"
    "HOL-Library.Multiset"
    "HOL-Library.Char_ord"
    "HOL-Library.List_Lexorder"
begin

text \<open>
  A model of the word-count program \<^verbatim>\<open>MapReduce/MapReduce/main.cpp\<close>: the mapper
  \<^verbatim>\<open>map_function\<close>, the reducer \<^verbatim>\<open>reduce_function\<close>, the worker \<^verbatim>\<open>map_worker\<close>
  and the coordinator \<^verbatim>\<open>main\<close>, followed by the properties that the specification
  claims of them.
\<close>

section \<open>Machine types\<close>

text \<open>
  \<^verbatim>\<open>int\<close> is a 32-bit two's complement word (read with \<open>sint\<close>, compared with
  \<open><s\<close>), \<^verbatim>\<open>unsigned long\<close> and \<^verbatim>\<open>size_t\<close> are 64-bit words (LP64). Arithmetic
  on both wraps around; for \<^verbatim>\<open>int\<close> that is what two's complement hardware does
  where C++ leaves signed overflow undefined, and the statements below say where a
  value stays within the range of \<^verbatim>\<open>int\<close>. A \<^verbatim>\<open>std::string\<close> is a list of 8-bit
  characters.
\<close>

type_synonym c_int = "32 word"
type_synonym size_t = "64 word"

section \<open>Character classes of the C locale\<close>

text \<open>
  The program never calls \<^verbatim>\<open>setlocale\<close>, so \<^verbatim>\<open>ispunct\<close>, \<^verbatim>\<open>tolower\<close> and the
  whitespace test of \<^verbatim>\<open>operator>>\<close> are those of the "C" locale: whitespace is the
  space and the characters 9 to 13, punctuation is every printable ASCII character
  that is neither a space nor alphanumeric, and only \<^verbatim>\<open>A\<close> to \<^verbatim>\<open>Z\<close> change
  under \<^verbatim>\<open>tolower\<close>. No character above 127 is in any of these classes.
\<close>

definition isspace :: "char \<Rightarrow> bool" where
  "isspace c \<longleftrightarrow> (let n = (of_char c :: nat) in n = 32 \<or> (9 \<le> n \<and> n \<le> 13))"

definition ispunct :: "char \<Rightarrow> bool" where
  "ispunct c \<longleftrightarrow>
     (let n = (of_char c :: nat)
      in (33 \<le> n \<and> n \<le> 47) \<or> (58 \<le> n \<and> n \<le> 64) \<or>
         (91 \<le> n \<and> n \<le> 96) \<or> (123 \<le> n \<and> n \<le> 126))"

definition tolower :: "char \<Rightarrow> char" where
  "tolower c =
     (let n = (of_char c :: nat) in if 65 \<le> n \<and> n \<le> 90 then char_of (n + 32) else c)"

section \<open>The mapper\<close>

text \<open>
  \<^verbatim>\<open>iss >> word\<close> on the rest of the stream: skip the leading whitespace; fail at the
  end of the input; otherwise read up to the next whitespace character. The result is
  the word read and the rest of the stream, or \<open>None\<close> when the extraction fails.
\<close>

definition stream_extract :: "string \<Rightarrow> (string \<times> string) option" where
  "stream_extract iss =
     (let r = dropWhile isspace iss
      in if r = [] then None
         else Some (takeWhile (\<lambda>c. \<not> isspace c) r, dropWhile (\<lambda>c. \<not> isspace c) r))"

text \<open>
  The body of the loop of \<^verbatim>\<open>map_function\<close>: erase what \<^verbatim>\<open>ispunct\<close> accepts, then
  lowercase what is left.
\<close>

definition transform_word :: "string \<Rightarrow> string" where
  "transform_word word = map tolower (filter (\<lambda>c. \<not> ispunct c) word)"

text \<open>
  \<^verbatim>\<open>while (iss >> word) { ...; result.push_back(make_pair(word, 1)); }\<close> with the
  stream and the result vector as explicit state.
\<close>

function map_loop :: "string \<Rightarrow> (string \<times> c_int) list \<Rightarrow> (string \<times> c_int) list" where
  "map_loop iss result =
     (case stream_extract iss of
        None \<Rightarrow> result
      | Some (word, iss') \<Rightarrow> map_loop iss' (result @ [(transform_word word, 1)]))"
  by pat_completeness auto
termination
proof (relation "measure (\<lambda>(iss, result). length iss)")
  show "wf (measure (\<lambda>(iss, result :: (string \<times> c_int) list). length iss))"
    by simp
next
  fix iss :: string and result :: "(string \<times> c_int) list" and x2 word iss'
  assume ex: "stream_extract iss = Some x2" and x2: "(word, iss') = x2"
  let ?r = "dropWhile isspace iss"
  from ex x2 have ne: "?r \<noteq> []" and rest: "iss' = dropWhile (\<lambda>c. \<not> isspace c) ?r"
    by (auto simp: stream_extract_def Let_def split: if_splits)
  from ne have "\<not> isspace (hd ?r)"
    by (rule hd_dropWhile)
  with ne have "length (dropWhile (\<lambda>c. \<not> isspace c) ?r) < length ?r"
    by (cases ?r) (auto intro: le_imp_less_Suc length_dropWhile_le)
  also have "length ?r \<le> length iss"
    by (rule length_dropWhile_le)
  finally show "((iss', result @ [(transform_word word, 1)]), (iss, result))
      \<in> measure (\<lambda>(iss, result). length iss)"
    using rest by simp
qed

declare map_loop.simps [simp del]

definition map_function :: "string \<Rightarrow> (string \<times> c_int) list" where
  "map_function input = map_loop input []"

subsection \<open>The mapper as the specification words it\<close>

text \<open>
  Splitting on whitespace, written independently of the stream: one pass over the
  characters with the token read so far; a whitespace character closes a non-empty
  token.
\<close>

fun split_ws :: "string \<Rightarrow> string \<Rightarrow> string list" where
  "split_ws cur [] = (if cur = [] then [] else [cur])"
| "split_ws cur (c # cs) =
     (if isspace c then (if cur = [] then split_ws [] cs else cur # split_ws [] cs)
      else split_ws (cur @ [c]) cs)"

definition whitespace_tokens :: "string \<Rightarrow> string list" where
  "whitespace_tokens s = split_ws [] s"

definition strip_punct :: "string \<Rightarrow> string" where
  "strip_punct t = filter (\<lambda>c. \<not> ispunct c) t"

definition lowercase :: "string \<Rightarrow> string" where
  "lowercase t = map tolower t"

definition normalise :: "string \<Rightarrow> string" where
  "normalise t = lowercase (strip_punct t)"


section \<open>\<^verbatim>\<open>std::map\<close>\<close>

text \<open>
  A \<^verbatim>\<open>std::map<std::string, V>\<close> is modelled by its entries in iteration order:
  ascending in the key (\<^verbatim>\<open>std::less<std::string>\<close>, the lexicographic order of
  the characters read as unsigned bytes), each key once. \<open>subscript_update k f d m\<close> is
  \<^verbatim>\<open>m[k] = f(m[k])\<close>: \<^verbatim>\<open>operator[]\<close> finds the entry of \<open>k\<close>, or inserts one
  with the value-initialised \<open>d\<close> at its place in the order, and the entry is updated
  through the reference returned.
\<close>

type_synonym 'v cpp_map = "(string \<times> 'v) list"

fun subscript_update :: "string \<Rightarrow> ('v \<Rightarrow> 'v) \<Rightarrow> 'v \<Rightarrow> 'v cpp_map \<Rightarrow> 'v cpp_map" where
  "subscript_update k f d [] = [(k, f d)]"
| "subscript_update k f d ((k', v) # m) =
     (if k < k' then (k, f d) # (k', v) # m
      else if k = k' then (k', f v) # m
      else (k', v) # subscript_update k f d m)"

section \<open>The reducer\<close>

text \<open>\<^verbatim>\<open>std::accumulate(values.begin(), values.end(), 0)\<close> in \<^verbatim>\<open>int\<close>.\<close>

definition reduce_function :: "c_int list \<Rightarrow> c_int" where
  "reduce_function vals = foldl (+) 0 vals"

section \<open>The worker\<close>

text \<open>
  \<^verbatim>\<open>input_data[i]\<close> is the unchecked \<^verbatim>\<open>operator[]\<close> of \<^verbatim>\<open>std::vector\<close>, with the
  \<^verbatim>\<open>int\<close> index converted to \<^verbatim>\<open>size_t\<close>. Outside the vector the behaviour of the
  program is undefined: the language allows every outcome there, a normal return
  included, and the model does not choose one.
\<close>

text \<open>\<^verbatim>\<open>intermediate_result[pair.first].push_back(pair.second)\<close>, under the lock.\<close>

definition push_pair :: "c_int list cpp_map \<Rightarrow> string \<times> c_int \<Rightarrow> c_int list cpp_map" where
  "push_pair intermediate_result pair =
     subscript_update (fst pair) (\<lambda>vs. vs @ [snd pair]) [] intermediate_result"

text \<open>
  \<^verbatim>\<open>map_worker\<close> run on its own, as the relation between the call and what it may
  end in: the loop \<^verbatim>\<open>for (int i = start; i < end; ++i)\<close> with the loop variable as
  the third argument (initially \<^verbatim>\<open>start\<close>) and the shared map as explicit state. The
  worker returns with the shared map it leaves, or the process is aborted. Within the
  vector the loop has one behaviour; a read outside the vector relates the call to
  every outcome.
\<close>

datatype outcome = Returns "c_int list cpp_map" | Aborts

inductive map_worker ::
  "string list \<Rightarrow> c_int list cpp_map \<Rightarrow> c_int \<Rightarrow> c_int \<Rightarrow> outcome \<Rightarrow> bool" where
  leaves: "\<not> i <s end' \<Longrightarrow> map_worker input_data intermediate_result i end' (Returns intermediate_result)"
| maps: "i <s end' \<Longrightarrow> unat (scast i :: size_t) < length input_data \<Longrightarrow>
     map_worker input_data
       (foldl push_pair intermediate_result
          (map_function (input_data ! unat (scast i :: size_t))))
       (i + 1) end' r \<Longrightarrow>
     map_worker input_data intermediate_result i end' r"
| reads_outside: "i <s end' \<Longrightarrow> \<not> unat (scast i :: size_t) < length input_data \<Longrightarrow>
     map_worker input_data intermediate_result i end' r"

text \<open>
  What one worker appends to the shared map, in its own order: the same loop, collecting
  the pairs of the critical sections instead of applying them. The workers run
  concurrently, and each \<^verbatim>\<open>push_back\<close> is atomic under \<^verbatim>\<open>reduceMutex\<close>, so a run of
  the map phase is an interleaving of these sequences. The result
  \<open>Inl Undefined_behaviour\<close> says that the loop reaches a read outside the vector;
  nothing is then said about the run.
\<close>

datatype fault = Undefined_behaviour

function worker_emits :: "string list \<Rightarrow> c_int \<Rightarrow> c_int \<Rightarrow> fault + (string \<times> c_int) list" where
  "worker_emits input_data i end' =
     (if i <s end' then
        (if unat (scast i :: size_t) < length input_data then
           (case worker_emits input_data (i + 1) end' of
              Inl f \<Rightarrow> Inl f
            | Inr es \<Rightarrow> Inr (map_function (input_data ! unat (scast i :: size_t)) @ es))
         else Inl Undefined_behaviour)
      else Inr [])"
  by pat_completeness auto
termination
proof (relation "measure (\<lambda>(input_data, i, end'). nat (sint end' - sint i))")
  show "wf (measure (\<lambda>(input_data :: string list, i :: c_int, end' :: c_int).
      nat (sint end' - sint i)))"
    by simp
next
  fix input_data :: "string list" and i end' :: c_int
  assume less: "i <s end'"
  then have lt: "sint i < sint end'" by (simp add: word_sless_alt)
  have "sint end' < 2 ^ 31" using sint_lt [of end'] by simp
  moreover have "- (2 ^ 31) \<le> sint i" using sint_ge [of i] by simp
  ultimately have "sint (i + 1) = sint i + 1"
    using lt by (simp add: sint_word_add signed_take_bit_int_eq_self)
  then show "((input_data, i + 1, end'), (input_data, i, end'))
      \<in> measure (\<lambda>(input_data, i, end'). nat (sint end' - sint i))"
    using lt by simp
qed

declare worker_emits.simps [simp del]

section \<open>The coordinator\<close>

text \<open>
  The bounds of thread \<open>i\<close>, as \<^verbatim>\<open>main\<close> computes them: \<^verbatim>\<open>i\<close> and
  \<^verbatim>\<open>num_threads\<close> are \<^verbatim>\<open>int\<close>, \<^verbatim>\<open>input_data.size()\<close> is \<^verbatim>\<open>size_t\<close>, so both
  \<^verbatim>\<open>int\<close> operands are converted to \<^verbatim>\<open>size_t\<close> (sign extension) and the quotient and
  the product are unsigned 64-bit; \<^verbatim>\<open>i + 1\<close> and \<^verbatim>\<open>num_threads - 1\<close> are computed in
  \<^verbatim>\<open>int\<close>. The division is reached inside the loop only, where \<^verbatim>\<open>num_threads\<close> is
  positive.
\<close>

definition range_start :: "size_t \<Rightarrow> c_int \<Rightarrow> c_int \<Rightarrow> size_t" where
  "range_start sz num_threads i = scast i * (sz div scast num_threads)"

definition range_end :: "size_t \<Rightarrow> c_int \<Rightarrow> c_int \<Rightarrow> size_t" where
  "range_end sz num_threads i =
     (if i = num_threads - 1 then sz else scast (i + 1) * (sz div scast num_threads))"

text \<open>
  \<^verbatim>\<open>for (int i = 0; i < num_threads; ++i)\<close>: the bounds handed to the threads, in the
  order of creation.
\<close>

function spawn_loop :: "size_t \<Rightarrow> c_int \<Rightarrow> c_int \<Rightarrow> (size_t \<times> size_t) list" where
  "spawn_loop sz num_threads i =
     (if i <s num_threads
      then (range_start sz num_threads i, range_end sz num_threads i)
             # spawn_loop sz num_threads (i + 1)
      else [])"
  by pat_completeness auto
termination
proof (relation "measure (\<lambda>(sz, num_threads, i). nat (sint num_threads - sint i))")
  show "wf (measure (\<lambda>(sz :: size_t, num_threads :: c_int, i :: c_int).
      nat (sint num_threads - sint i)))"
    by simp
next
  fix sz :: size_t and num_threads i :: c_int
  assume less: "i <s num_threads"
  then have lt: "sint i < sint num_threads" by (simp add: word_sless_alt)
  have "sint num_threads < 2 ^ 31" using sint_lt [of num_threads] by simp
  moreover have "- (2 ^ 31) \<le> sint i" using sint_ge [of i] by simp
  ultimately have "sint (i + 1) = sint i + 1"
    using lt by (simp add: sint_word_add signed_take_bit_int_eq_self)
  then show "((sz, num_threads, i + 1), (sz, num_threads, i))
      \<in> measure (\<lambda>(sz, num_threads, i). nat (sint num_threads - sint i))"
    using lt by simp
qed

declare spawn_loop.simps [simp del]

text \<open>
  The bounds of the threads read as index ranges \<open>[start, end)\<close> of natural numbers;
  \<open>covers r j\<close> says that the index \<open>j\<close> lies in the range \<open>r\<close>.
\<close>

definition thread_ranges :: "size_t \<Rightarrow> c_int \<Rightarrow> (nat \<times> nat) list" where
  "thread_ranges sz num_threads =
     map (\<lambda>r. (unat (fst r), unat (snd r))) (spawn_loop sz num_threads 0)"

definition covers :: "nat \<times> nat \<Rightarrow> nat \<Rightarrow> bool" where
  "covers r j \<longleftrightarrow> fst r \<le> j \<and> j < snd r"

text \<open>
  A thread calls \<^verbatim>\<open>map_worker\<close> with its two \<^verbatim>\<open>unsigned long\<close> bounds converted to
  the \<^verbatim>\<open>int\<close> parameters (truncation to 32 bits).
\<close>

definition thread_emits :: "string list \<Rightarrow> size_t \<times> size_t \<Rightarrow> fault + (string \<times> c_int) list" where
  "thread_emits input_data r = worker_emits input_data (ucast (fst r)) (ucast (snd r))"

fun collect :: "(fault + 'a) list \<Rightarrow> fault + 'a list" where
  "collect [] = Inr []"
| "collect (x # xs) =
     (case x of
        Inl f \<Rightarrow> Inl f
      | Inr a \<Rightarrow> (case collect xs of Inl f \<Rightarrow> Inl f | Inr as \<Rightarrow> Inr (a # as)))"

text \<open>
  A schedule names, for each critical section in turn, the thread that enters it. A
  thread that is named but has nothing left to append, or does not exist, is passed
  over; when the schedule is used up the threads still running finish one after the
  other (\<^verbatim>\<open>join\<close> waits for all of them).
\<close>

fun interleave :: "nat list \<Rightarrow> 'a list list \<Rightarrow> 'a list" where
  "interleave [] pending = concat pending"
| "interleave (k # sched) pending =
     (if k < length pending then
        (case pending ! k of
           [] \<Rightarrow> interleave sched pending
         | x # rest \<Rightarrow> x # interleave sched (pending[k := rest]))
      else interleave sched pending)"

text \<open>
  The interleavings of the threads' sequences, as a relation: at each step some thread
  with a pair left performs its next critical section. Every schedule produces one of
  them, and each of them is produced by a schedule (shown below), so a statement about
  all schedules is a statement about all interleavings.
\<close>

inductive interleaving :: "'a list list \<Rightarrow> 'a list \<Rightarrow> bool" where
  finished: "concat pending = [] \<Longrightarrow> interleaving pending []"
| enters: "k < length pending \<Longrightarrow> pending ! k = x # rest \<Longrightarrow>
     interleaving (pending[k := rest]) es \<Longrightarrow> interleaving pending (x # es)"

definition map_phase :: "string list \<Rightarrow> c_int \<Rightarrow> nat list \<Rightarrow> fault + c_int list cpp_map" where
  "map_phase input_data num_threads sched =
     (case collect (map (thread_emits input_data)
                      (spawn_loop (word_of_nat (length input_data)) num_threads 0)) of
        Inl f \<Rightarrow> Inl f
      | Inr pending \<Rightarrow> Inr (foldl push_pair [] (interleave sched pending)))"

text \<open>\<^verbatim>\<open>final_result[entry.first] = reduce_function(entry.second)\<close> for every entry.\<close>

definition assign_entry :: "c_int cpp_map \<Rightarrow> string \<times> c_int list \<Rightarrow> c_int cpp_map" where
  "assign_entry final_result entry =
     subscript_update (fst entry) (\<lambda>_. reduce_function (snd entry)) 0 final_result"

definition reduce_phase :: "c_int list cpp_map \<Rightarrow> c_int cpp_map" where
  "reduce_phase intermediate_result = foldl assign_entry [] intermediate_result"

text \<open>\<^verbatim>\<open>std::cout << result.first << ": " << result.second << std::endl\<close>.\<close>

function decimal :: "nat \<Rightarrow> string" where
  "decimal n = (if n < 10 then [char_of (48 + n)]
                else decimal (n div 10) @ [char_of (48 + n mod 10)])"
  by pat_completeness auto
termination
  by (relation "measure (\<lambda>n. n)") auto

declare decimal.simps [simp del]

definition show_int :: "c_int \<Rightarrow> string" where
  "show_int v = (if sint v < 0 then CHR ''-'' # decimal (nat (- sint v))
                 else decimal (nat (sint v)))"

definition print_line :: "string \<times> c_int \<Rightarrow> string" where
  "print_line result = fst result @ '': '' @ show_int (snd result)"

text \<open>
  \<^verbatim>\<open>main\<close>, with the corpus, the value of \<^verbatim>\<open>std::thread::hardware_concurrency()\<close>
  converted to \<^verbatim>\<open>int\<close> and the schedule as parameters: the lines written to
  \<^verbatim>\<open>std::cout\<close> and the value returned. In the source the corpus is the vector
  of the four test sentences \<open>test_sentences\<close>.
\<close>

definition test_sentences :: "string list" where
  "test_sentences =
     [''This is sentence one.'',
      ''This is sentence two.'',
      ''This is a sentence that ends with red.'',
      ''This is a sentence that ends with blue.'']"

definition final_result :: "string list \<Rightarrow> c_int \<Rightarrow> nat list \<Rightarrow> fault + c_int cpp_map" where
  "final_result input_data num_threads sched =
     (case map_phase input_data num_threads sched of
        Inl f \<Rightarrow> Inl f
      | Inr intermediate_result \<Rightarrow> Inr (reduce_phase intermediate_result))"

definition main :: "string list \<Rightarrow> c_int \<Rightarrow> nat list \<Rightarrow> fault + string list \<times> c_int" where
  "main input_data num_threads sched =
     (case final_result input_data num_threads sched of
        Inl f \<Rightarrow> Inl f
      | Inr fin \<Rightarrow> Inr (map print_line fin, 0))"

section \<open>Properties of the mapper\<close>

lemma split_ws_token:
  "split_ws cur s =
     (if cur @ takeWhile (\<lambda>c. \<not> isspace c) s = [] then []
      else [cur @ takeWhile (\<lambda>c. \<not> isspace c) s])
     @ split_ws [] (dropWhile (\<lambda>c. \<not> isspace c) s)"
proof (induction s arbitrary: cur)
  case Nil
  show ?case by simp
next
  case (Cons c cs)
  show ?case
  proof (cases "isspace c")
    case True
    then show ?thesis by simp
  next
    case False
    then show ?thesis using Cons.IH [of "cur @ [c]"] by simp
  qed
qed

lemma split_ws_skip: "split_ws [] (dropWhile isspace s) = split_ws [] s"
  by (induction s) simp_all

lemma split_ws_extract_None: "stream_extract s = None \<Longrightarrow> split_ws [] s = []"
proof -
  assume "stream_extract s = None"
  then have "dropWhile isspace s = []"
    by (simp add: stream_extract_def Let_def split: if_splits)
  then have "split_ws [] (dropWhile isspace s) = split_ws [] []" by (rule arg_cong)
  then have "split_ws [] (dropWhile isspace s) = []" by simp
  then show ?thesis by (simp only: split_ws_skip)
qed

lemma split_ws_extract_Some:
  assumes "stream_extract s = Some (word, rest)"
  shows "split_ws [] s = word # split_ws [] rest"
proof -
  let ?r = "dropWhile isspace s"
  from assms have ne: "?r \<noteq> []"
    and word: "word = takeWhile (\<lambda>c. \<not> isspace c) ?r"
    and rest: "rest = dropWhile (\<lambda>c. \<not> isspace c) ?r"
    by (auto simp: stream_extract_def Let_def split: if_splits)
  from ne have "\<not> isspace (hd ?r)" by (rule hd_dropWhile)
  with ne have "word \<noteq> []" unfolding word by (cases ?r) auto
  then have "split_ws [] ?r = word # split_ws [] rest"
    using split_ws_token [of "[]" ?r] by (simp add: word rest)
  then show ?thesis by (simp only: split_ws_skip)
qed

lemma map_loop_tokens:
  "map_loop s acc = acc @ map (\<lambda>t. (transform_word t, 1)) (split_ws [] s)"
proof (induction s acc rule: map_loop.induct)
  case (1 iss result)
  show ?case
  proof (cases "stream_extract iss")
    case None
    then show ?thesis
      by (subst map_loop.simps) (simp add: split_ws_extract_None)
  next
    case (Some p)
    obtain word rest where p: "p = (word, rest)" by (cases p)
    from Some p have ex: "stream_extract iss = Some (word, rest)" by simp
    have "map_loop iss result = map_loop rest (result @ [(transform_word word, 1)])"
      by (subst map_loop.simps) (simp add: ex)
    also have "\<dots> = (result @ [(transform_word word, 1)])
        @ map (\<lambda>t. (transform_word t, 1)) (split_ws [] rest)"
      using "1.IH" [OF ex refl] .
    finally show ?thesis
      by (simp add: split_ws_extract_Some [OF ex])
  qed
qed

lemma map_function_tokens:
  "map_function input = map (\<lambda>t. (normalise t, 1)) (whitespace_tokens input)"
  by (simp add: map_function_def map_loop_tokens whitespace_tokens_def normalise_def
      lowercase_def strip_punct_def transform_word_def)

section \<open>The mapper emits a pair for every token\<close>

lemma normalise_punctuation: "\<forall>c \<in> set t. ispunct c \<Longrightarrow> normalise t = []"
  by (simp add: normalise_def lowercase_def strip_punct_def)

text \<open>
  Claim C2, as the code has it. The mapper splits the record on whitespace, strips the
  punctuation characters from each token and lowercases the remainder, and emits a
  pair \<open>(word, 1)\<close> for every token, in the original order, whether or not the
  remaining string is empty: a token consisting solely of punctuation produces the pair
  of the empty string and 1.
\<close>

theorem mapper_emits_every_token:
  "map_function input = map (\<lambda>t. (normalise t, 1)) (whitespace_tokens input) \<and>
   (\<forall>t \<in> set (whitespace_tokens input).
      (\<forall>c \<in> set t. ispunct c) \<longrightarrow> (normalise t, 1 :: c_int) = ([], 1))"
  by (simp add: map_function_tokens normalise_punctuation)

theorem mapper_emits_every_token_witness:
  "map_function ''Hi, - x'' = [(''hi'', 1), ([], 1), (''x'', 1)] \<and>
   ''-'' \<in> set (whitespace_tokens ''Hi, - x'') \<and> ispunct CHR ''-'' \<and>
   (normalise ''-'', 1 :: c_int) = ([], 1)"
proof -
  have tokens: "whitespace_tokens ''Hi, - x'' = [''Hi,'', ''-'', ''x'']"
    by code_simp
  have punct: "ispunct CHR ''-''"
    by code_simp
  have words: "map (\<lambda>t. (normalise t, 1 :: c_int)) [''Hi,'', ''-'', ''x'']
      = [(''hi'', 1), ([], 1), (''x'', 1)]"
    by code_simp
  from mapper_emits_every_token [of "''Hi, - x''"] tokens punct words
  show ?thesis by simp
qed

text \<open>
  Claim C2, as the specification states it, fails: on the record \<open>- a\<close> the token
  \<open>-\<close>, which consists solely of punctuation, does produce an output pair, with the
  empty word.
\<close>

theorem mapper_punctuation_only_counterexample:
  "map_function ''- a'' = [([], 1), (''a'', 1)]"
  by code_simp

section \<open>Conversions between the machine types\<close>

lemma sint_succ: "i <s e \<Longrightarrow> sint (i + 1 :: c_int) = sint i + 1"
proof -
  assume "i <s e"
  then have lt: "sint i < sint e" by (simp add: word_sless_alt)
  have "sint e < 2 ^ 31" using sint_lt [of e] by simp
  moreover have "- (2 ^ 31) \<le> sint i" using sint_ge [of i] by simp
  ultimately show ?thesis
    using lt by (simp add: sint_word_add signed_take_bit_int_eq_self)
qed

lemma sint_of_nat_int: "k < 2 ^ 31 \<Longrightarrow> sint (word_of_nat k :: c_int) = int k"
proof -
  assume k: "k < 2 ^ 31"
  have "(word_of_nat k :: c_int) = word_of_int (int k)" by simp
  then have "sint (word_of_nat k :: c_int) = signed_take_bit 31 (int k)"
    by (simp only: sint_sbintrunc') simp
  also have "\<dots> = int k" using k by (simp add: signed_take_bit_int_eq_self)
  finally show ?thesis .
qed

lemma of_nat_sint: "0 \<le> sint (T :: c_int) \<Longrightarrow> word_of_nat (nat (sint T)) = T"
  by simp

lemma sint_less_bound: "nat (sint (T :: c_int)) < 2 ^ 31"
  using sint_lt [of T] by simp

lemma scast_of_nat: "k < 2 ^ 31 \<Longrightarrow> (scast (word_of_nat k :: c_int) :: size_t) = word_of_nat k"
  by (simp add: scast_eq sint_of_nat_int)

lemma unat_of_nat_size: "n < 2 ^ 64 \<Longrightarrow> unat (word_of_nat n :: size_t) = n"
  by (simp add: unat_of_nat)

lemma ucast_of_nat: "(ucast (word_of_nat n :: size_t) :: c_int) = word_of_nat n"
  by (simp add: unsigned_of_nat word_of_nat_eq_iff)

lemma sless_of_nat:
  "j < 2 ^ 31 \<Longrightarrow> t < 2 ^ 31 \<Longrightarrow> (word_of_nat j :: c_int) <s word_of_nat t \<longleftrightarrow> j < t"
  by (simp add: word_sless_alt sint_of_nat_int)

section \<open>The ordered map and the reducer\<close>

lemma keys_subscript_update:
  "set (map fst (subscript_update k f d m)) = insert k (set (map fst m))"
proof (induction m)
  case Nil
  show ?case by simp
next
  case (Cons e m)
  obtain k' v where e: "e = (k', v)" by (cases e)
  from Cons.IH show ?case by (auto simp: e)
qed

lemma sorted_subscript_update:
  "sorted_wrt (<) (map fst m) \<Longrightarrow> sorted_wrt (<) (map fst (subscript_update k f d m))"
proof (induction m)
  case Nil
  show ?case by simp
next
  case (Cons e m)
  obtain k' v where e: "e = (k', v)" by (cases e)
  from Cons.prems have above: "\<forall>x \<in> set (map fst m). k' < x" and rest: "sorted_wrt (<) (map fst m)"
    by (simp_all add: e)
  show ?case
  proof (cases "k < k'")
    case True
    with above rest show ?thesis by (auto simp: e)
  next
    case False
    show ?thesis
    proof (cases "k = k'")
      case True
      with above rest show ?thesis by (simp add: e)
    next
      case False
      with \<open>\<not> k < k'\<close> have "k' < k" by simp
      with above have "\<forall>x \<in> set (map fst (subscript_update k f d m)). k' < x"
        by (simp only: keys_subscript_update) simp
      with Cons.IH [OF rest] False \<open>\<not> k < k'\<close> show ?thesis by (simp add: e)
    qed
  qed
qed

lemma map_of_absent: "\<forall>x \<in> set (map fst m). k < x \<Longrightarrow> map_of m (k :: string) = None"
  by (induction m) auto

lemma map_of_subscript_update:
  "sorted_wrt (<) (map fst m) \<Longrightarrow>
   map_of (subscript_update k f d m) =
     (map_of m)(k \<mapsto> f (case map_of m k of None \<Rightarrow> d | Some v \<Rightarrow> v))"
proof (induction m)
  case Nil
  show ?case by simp
next
  case (Cons e m)
  obtain k' v where e: "e = (k', v)" by (cases e)
  from Cons.prems have above: "\<forall>x \<in> set (map fst m). k' < x" and rest: "sorted_wrt (<) (map fst m)"
    by (simp_all add: e)
  show ?case
  proof (cases "k < k'")
    case True
    with above have "\<forall>x \<in> set (map fst m). k < x" by auto
    then have "map_of m k = None" by (rule map_of_absent)
    with True show ?thesis by (auto simp: e)
  next
    case False
    then show ?thesis using Cons.IH [OF rest] by (auto simp: e)
  qed
qed

lemma subscript_update_append:
  "\<forall>x \<in> set (map fst m). x < k \<Longrightarrow> subscript_update k f d m = m @ [(k, f d)]"
  by (induction m) auto

lemma sorted_foldl_push_pair:
  "sorted_wrt (<) (map fst m) \<Longrightarrow> sorted_wrt (<) (map fst (foldl push_pair m es))"
  by (induction es arbitrary: m) (simp_all add: push_pair_def sorted_subscript_update)

lemma map_of_foldl_push_pair:
  "sorted_wrt (<) (map fst m) \<Longrightarrow>
   map_of (foldl push_pair m es) w =
     (case map_of m w of
        None \<Rightarrow> (if filter (\<lambda>p. fst p = w) es = [] then None
                 else Some (map snd (filter (\<lambda>p. fst p = w) es)))
      | Some old \<Rightarrow> Some (old @ map snd (filter (\<lambda>p. fst p = w) es)))"
proof (induction es arbitrary: m)
  case Nil
  show ?case by (simp split: option.split)
next
  case (Cons e es)
  have sorted: "sorted_wrt (<) (map fst (push_pair m e))"
    using Cons.prems by (simp add: push_pair_def sorted_subscript_update)
  have step: "map_of (push_pair m e) =
      (map_of m)(fst e \<mapsto> (case map_of m (fst e) of None \<Rightarrow> [] | Some v \<Rightarrow> v) @ [snd e])"
    using Cons.prems by (simp add: push_pair_def map_of_subscript_update)
  show ?case
    using Cons.IH [OF sorted] by (simp add: step split: option.split)
qed

lemma intermediate_lookup:
  "map_of (foldl push_pair [] es) w =
     (if filter (\<lambda>p. fst p = w) es = [] then None
      else Some (map snd (filter (\<lambda>p. fst p = w) es)))"
  using map_of_foldl_push_pair [of "[]" es w] by simp

lemma foldl_assign_entry:
  "sorted_wrt (<) (map fst acc @ map fst m) \<Longrightarrow>
   foldl assign_entry acc m = acc @ map (\<lambda>e. (fst e, reduce_function (snd e))) m"
proof (induction m arbitrary: acc)
  case Nil
  show ?case by simp
next
  case (Cons e m)
  from Cons.prems have "\<forall>x \<in> set (map fst acc). x < fst e"
    by (simp add: sorted_wrt_append)
  then have "assign_entry acc e = acc @ [(fst e, reduce_function (snd e))]"
    by (simp add: assign_entry_def subscript_update_append)
  moreover have "sorted_wrt (<) (map fst (acc @ [(fst e, reduce_function (snd e))]) @ map fst m)"
    using Cons.prems by (simp add: sorted_wrt_append)
  ultimately show ?case
    using Cons.IH [of "acc @ [(fst e, reduce_function (snd e))]"] by simp
qed

lemma reduce_phase_map:
  "sorted_wrt (<) (map fst m) \<Longrightarrow>
   reduce_phase m = map (\<lambda>e. (fst e, reduce_function (snd e))) m"
  using foldl_assign_entry [of "[]" m] by (simp add: reduce_phase_def)

lemma keys_reduce_phase:
  "sorted_wrt (<) (map fst m) \<Longrightarrow> map fst (reduce_phase m) = map fst m"
  by (simp add: reduce_phase_map comp_def)

lemma map_of_reduce_phase:
  "sorted_wrt (<) (map fst m) \<Longrightarrow>
   map_of (reduce_phase m) w = map_option reduce_function (map_of m w)"
  by (simp add: reduce_phase_map) (induction m, auto)

lemma foldl_plus: "foldl (+) a vs = a + sum_list (vs :: c_int list)"
  by (induction vs arbitrary: a) (simp_all add: add.assoc)

lemma reduce_function_sum: "reduce_function vs = sum_list vs"
  by (simp add: reduce_function_def foldl_plus)

lemma reduce_function_ones:
  "\<forall>v \<in> set vs. v = 1 \<Longrightarrow> reduce_function vs = word_of_nat (length vs)"
  by (induction vs) (simp_all add: reduce_function_sum)

lemma sint_reduce_function_ones:
  "\<forall>v \<in> set vs. v = 1 \<Longrightarrow> length vs < 2 ^ 31 \<Longrightarrow> sint (reduce_function vs) = int (length vs)"
  by (simp add: reduce_function_ones sint_of_nat_int)

section \<open>The partition of the records\<close>

lemma spawn_loop_upt:
  assumes "j \<le> t" and "t < 2 ^ 31"
  shows "spawn_loop R (word_of_nat t) (word_of_nat j) =
     map (\<lambda>k. (range_start R (word_of_nat t) (word_of_nat k),
                range_end R (word_of_nat t) (word_of_nat k))) [j..<t]"
  using assms
proof (induction "t - j" arbitrary: j)
  case 0
  then have "j = t" by simp
  then show ?case by (subst spawn_loop.simps) (simp add: word_sless_alt)
next
  case (Suc n)
  then have lt: "j < t" and j: "j < 2 ^ 31" by simp_all
  have step: "(word_of_nat j :: c_int) <s word_of_nat t"
    using lt j Suc.prems by (simp add: sless_of_nat)
  have next_i: "(word_of_nat j :: c_int) + 1 = word_of_nat (Suc j)" by simp
  have "n = t - Suc j" using Suc.hyps by simp
  then have IH: "spawn_loop R (word_of_nat t) (word_of_nat (Suc j)) =
     map (\<lambda>k. (range_start R (word_of_nat t) (word_of_nat k),
                range_end R (word_of_nat t) (word_of_nat k))) [Suc j..<t]"
    using Suc.hyps(1) [of "Suc j"] lt Suc.prems by simp
  show ?case
    by (subst spawn_loop.simps) (simp only: step if_True next_i IH upt_conv_Cons [OF lt] list.map)
qed

lemma unat_quotient:
  assumes "0 < t" and "t < 2 ^ 31"
  shows "unat (R div (scast (word_of_nat t :: c_int) :: size_t)) = unat R div t"
proof -
  have "unat (word_of_nat t :: size_t) = t"
    using assms by (simp add: unat_of_nat_size)
  then show ?thesis using assms by (simp add: scast_of_nat unat_div)
qed

lemma range_start_nat:
  assumes "k < t" and "t < 2 ^ 31"
  shows "unat (range_start R (word_of_nat t) (word_of_nat k)) = k * (unat R div t)"
proof -
  let ?q = "unat R div t"
  have t: "0 < t" using assms by simp
  have "k * ?q \<le> t * ?q" using assms by simp
  also have "\<dots> \<le> unat R" by (simp add: mult.commute)
  also have "unat R < 2 ^ 64" using unsigned_less [of R] by simp
  finally have small: "k * ?q < 2 ^ 64" .
  have k: "k < 2 ^ 31" using assms by simp
  have "unat (range_start R (word_of_nat t) (word_of_nat k))
      = unat ((word_of_nat k :: size_t) * (R div scast (word_of_nat t :: c_int)))"
    using k by (simp add: range_start_def scast_of_nat)
  also have "\<dots> = (unat (word_of_nat k :: size_t) * ?q) mod 2 ^ 64"
    using unat_quotient [OF t assms(2), of R] by (simp add: unat_word_ariths(2))
  also have "\<dots> = (k * ?q) mod 2 ^ 64"
    using k by (simp add: unat_of_nat_size)
  also have "\<dots> = k * ?q" using small by simp
  finally show ?thesis .
qed

lemma last_thread_iff:
  assumes "k < t" and "t < 2 ^ 31"
  shows "(word_of_nat k :: c_int) = word_of_nat t - 1 \<longleftrightarrow> Suc k = t"
proof -
  obtain t' where t': "t = Suc t'" using assms(1) by (cases t) auto
  have "(word_of_nat (Suc t') :: c_int) - 1 = word_of_nat t'" by simp
  moreover have "(word_of_nat k :: c_int) = word_of_nat t' \<longleftrightarrow> k = t'"
  proof -
    have "take_bit 32 k = k" and "take_bit 32 t' = t'"
      using assms t' by (simp_all add: take_bit_nat_eq_self)
    then show ?thesis by (simp add: word_of_nat_eq_iff)
  qed
  ultimately show ?thesis unfolding t' by (simp only: nat.inject)
qed

lemma range_end_nat:
  assumes "k < t" and "t < 2 ^ 31"
  shows "unat (range_end R (word_of_nat t) (word_of_nat k)) =
     (if Suc k = t then unat R else Suc k * (unat R div t))"
proof (cases "Suc k = t")
  case True
  then show ?thesis
    using last_thread_iff [OF assms] by (simp add: range_end_def)
next
  case False
  then have lt: "Suc k < t" using assms by simp
  have next_i: "(word_of_nat k :: c_int) + 1 = word_of_nat (Suc k)" by simp
  have "range_end R (word_of_nat t) (word_of_nat k)
      = scast ((word_of_nat k :: c_int) + 1) * (R div scast (word_of_nat t :: c_int))"
    using False last_thread_iff [OF assms] by (simp only: range_end_def if_False)
  also have "\<dots> = range_start R (word_of_nat t) (word_of_nat (Suc k))"
    by (simp only: next_i range_start_def)
  finally show ?thesis
    using range_start_nat [OF lt assms(2), of R] False by simp
qed

lemma thread_ranges_of_nat:
  assumes "t < 2 ^ 31"
  shows "thread_ranges R (word_of_nat t) =
     map (\<lambda>k. (k * (unat R div t), if Suc k = t then unat R else Suc k * (unat R div t)))
       [0..<t]"
proof -
  have "spawn_loop R (word_of_nat t) (word_of_nat 0) =
     map (\<lambda>k. (range_start R (word_of_nat t) (word_of_nat k),
                range_end R (word_of_nat t) (word_of_nat k))) [0..<t]"
    by (rule spawn_loop_upt [OF _ assms]) simp
  then have "thread_ranges R (word_of_nat t) =
     map (\<lambda>k. (unat (range_start R (word_of_nat t) (word_of_nat k)),
                unat (range_end R (word_of_nat t) (word_of_nat k)))) [0..<t]"
    by (simp add: thread_ranges_def comp_def)
  also have "\<dots> = map (\<lambda>k. (k * (unat R div t),
                if Suc k = t then unat R else Suc k * (unat R div t))) [0..<t]"
    using assms by (intro map_cong refl) (simp add: range_start_nat range_end_nat)
  finally show ?thesis .
qed

lemma thread_ranges_nat:
  assumes "0 <s T"
  shows "thread_ranges R T =
     map (\<lambda>k. (k * (unat R div nat (sint T)),
                if Suc k = nat (sint T) then unat R else Suc k * (unat R div nat (sint T))))
       [0..<nat (sint T)]"
proof -
  from assms have "0 < sint T" by (simp add: word_sless_alt)
  then have T: "word_of_nat (nat (sint T)) = T" by simp
  show ?thesis
    using thread_ranges_of_nat [of "nat (sint T)" R, OF sint_less_bound] by (simp only: T)
qed


lemma chain_covering:
  "sorted (b # bs) \<Longrightarrow>
   length (filter (\<lambda>r. covers r j) (zip (b # bs) bs)) = (if b \<le> j \<and> j < last (b # bs) then 1 else 0)"
proof (induction bs arbitrary: b)
  case Nil
  show ?case by simp
next
  case (Cons c cs)
  from Cons.prems have bc: "b \<le> c" and sorted: "sorted (c # cs)" by simp_all
  have "c \<le> last (c # cs)" using sorted by (cases cs) (auto simp: sorted_append dest: last_in_set)
  then show ?case
    using Cons.IH [OF sorted] bc by (auto simp: covers_def)
qed

lemma boundaries_sorted:
  assumes "0 < t"
  shows "sorted (map (\<lambda>k. k * (r div t)) [0..<t] @ [r])"
proof -
  have "k * (r div t) \<le> r" if "k < t" for k
  proof -
    have "k * (r div t) \<le> t * (r div t)" using that by simp
    also have "\<dots> \<le> r" by (simp add: mult.commute)
    finally show ?thesis .
  qed
  moreover have "sorted (map (\<lambda>k. k * (r div t)) [0..<t])"
    by (simp add: sorted_iff_nth_mono)
  ultimately show ?thesis by (auto simp: sorted_append)
qed

lemma ranges_as_chain:
  assumes "0 < t"
  shows "map (\<lambda>k. (k * q, if Suc k = t then r else Suc k * q)) [0..<t]
     = zip (map (\<lambda>k. k * q) [0..<t] @ [r]) (tl (map (\<lambda>k. k * q) [0..<t] @ [r]))"
proof (rule nth_equalityI)
  show "length (map (\<lambda>k. (k * q, if Suc k = t then r else Suc k * q)) [0..<t])
      = length (zip (map (\<lambda>k. k * q) [0..<t] @ [r]) (tl (map (\<lambda>k. k * q) [0..<t] @ [r])))"
    by simp
next
  fix i
  assume "i < length (map (\<lambda>k. (k * q, if Suc k = t then r else Suc k * q)) [0..<t])"
  then have i: "i < t" by simp
  then show "map (\<lambda>k. (k * q, if Suc k = t then r else Suc k * q)) [0..<t] ! i
      = zip (map (\<lambda>k. k * q) [0..<t] @ [r]) (tl (map (\<lambda>k. k * q) [0..<t] @ [r])) ! i"
    by (auto simp: nth_tl nth_append)
qed


lemma covering_count:
  assumes "0 <s T"
  shows "length (filter (\<lambda>r. covers r j) (thread_ranges R T)) = (if j < unat R then 1 else 0)"
proof -
  let ?t = "nat (sint T)" and ?r = "unat R"
  let ?bs = "map (\<lambda>k. k * (?r div ?t)) [0..<?t]"
  from assms have t: "0 < ?t" by (simp add: word_sless_alt)
  then obtain bs' where bs': "?bs = 0 # bs'"
    by (cases ?t) (simp_all add: upt_conv_Cons del: upt_Suc)
  have "thread_ranges R T = zip (?bs @ [?r]) (tl (?bs @ [?r]))"
    by (simp only: thread_ranges_nat [OF assms] ranges_as_chain [OF t])
  also have "\<dots> = zip (0 # bs' @ [?r]) (bs' @ [?r])"
    by (simp add: bs')
  finally have "length (filter (\<lambda>r. covers r j) (thread_ranges R T))
      = (if 0 \<le> j \<and> j < last (0 # bs' @ [?r]) then 1 else 0)"
    using boundaries_sorted [OF t, of ?r] by (simp only: bs' chain_covering append_Cons)
  then show ?thesis by simp
qed

section \<open>The workers and their interleaving\<close>

lemma mset_concat_update:
  "k < length p \<Longrightarrow> p ! k = x # rest \<Longrightarrow>
   add_mset x (mset (concat (p[k := rest]))) = mset (concat p)"
proof (induction p arbitrary: k)
  case Nil
  then show ?case by simp
next
  case (Cons q p)
  show ?case
  proof (cases k)
    case 0
    with Cons.prems show ?thesis by simp
  next
    case (Suc k')
    with Cons.prems Cons.IH [of k'] show ?thesis by simp
  qed
qed

lemma mset_interleave: "mset (interleave sched pending) = mset (concat pending)"
proof (induction sched arbitrary: pending)
  case Nil
  show ?case by simp
next
  case (Cons k sched)
  show ?case
  proof (cases "k < length pending")
    case False
    then show ?thesis by (simp add: Cons.IH)
  next
    case True
    show ?thesis
    proof (cases "pending ! k")
      case Nil
      with True show ?thesis by (simp add: Cons.IH)
    next
      case (Cons x rest)
      with True show ?thesis
        by (simp add: Cons.IH mset_concat_update)
    qed
  qed
qed

lemma interleaving_schedule:
  "interleaving pending es \<Longrightarrow> \<exists>sched. interleave sched pending = es"
proof (induction rule: interleaving.induct)
  case (finished pending)
  then have "interleave [] pending = []" by simp
  then show ?case ..
next
  case (enters k pending x rest es)
  then obtain sched where "interleave sched (pending[k := rest]) = es" by blast
  with enters.hyps have "interleave (k # sched) pending = x # es" by simp
  then show ?case ..
qed

lemma first_running_thread:
  "concat pending \<noteq> [] \<Longrightarrow>
   \<exists>k x rest. k < length pending \<and> pending ! k = x # rest \<and>
     concat pending = x # concat (pending[k := rest])"
proof (induction pending)
  case Nil
  then show ?case by simp
next
  case (Cons q pending)
  show ?case
  proof (cases q)
    case Nil
    with Cons.prems have "concat pending \<noteq> []" by simp
    from Cons.IH [OF this] obtain k x rest where "k < length pending"
      and "pending ! k = x # rest" and "concat pending = x # concat (pending[k := rest])"
      by blast
    with Nil have "Suc k < length (q # pending) \<and> (q # pending) ! Suc k = x # rest \<and>
        concat (q # pending) = x # concat ((q # pending)[Suc k := rest])"
      by simp
    then show ?thesis by blast
  next
    case (Cons x rest)
    then have "0 < length (q # pending) \<and> (q # pending) ! 0 = x # rest \<and>
        concat (q # pending) = x # concat ((q # pending)[0 := rest])"
      by simp
    then show ?thesis by blast
  qed
qed

lemma interleaving_concat: "interleaving pending (concat pending)"
proof (induction "length (concat pending)" arbitrary: pending)
  case 0
  then have empty: "concat pending = []" by simp
  then have "interleaving pending []" by (rule interleaving.finished)
  then show ?case by (simp only: empty)
next
  case (Suc n)
  have "concat pending \<noteq> []"
  proof
    assume "concat pending = []"
    then have "length (concat pending) = 0" by (simp only: list.size)
    with Suc.hyps(2) show False by arith
  qed
  from first_running_thread [OF this] obtain k x rest where k: "k < length pending"
    and head: "pending ! k = x # rest"
    and all: "concat pending = x # concat (pending[k := rest])"
    by blast
  from Suc.hyps(2) all have "n = length (concat (pending[k := rest]))" by simp
  then have "interleaving (pending[k := rest]) (concat (pending[k := rest]))"
    by (rule Suc.hyps(1))
  with k head show ?case unfolding all by (rule interleaving.enters)
qed

lemma schedule_interleaving: "interleaving pending (interleave sched pending)"
proof (induction sched arbitrary: pending)
  case Nil
  show ?case by (simp add: interleaving_concat)
next
  case (Cons k sched)
  show ?case
  proof (cases "k < length pending")
    case False
    then show ?thesis by (simp add: Cons.IH)
  next
    case True
    show ?thesis
    proof (cases "pending ! k")
      case Nil
      with True show ?thesis by (simp add: Cons.IH)
    next
      case (Cons x rest)
      with True show ?thesis
        by (simp add: interleaving.enters [OF True Cons Cons.IH])
    qed
  qed
qed

lemma map_worker_unfold:
  "map_worker d m i e r \<longleftrightarrow>
     (if i <s e then
        (if unat (scast i :: size_t) < length d then
           map_worker d (foldl push_pair m (map_function (d ! unat (scast i :: size_t)))) (i + 1) e r
         else True)
      else r = Returns m)"
  by (subst map_worker.simps) auto

lemma map_worker_emits:
  "worker_emits d i e = Inr es \<Longrightarrow>
   map_worker d m i e r \<longleftrightarrow> r = Returns (foldl push_pair m es)"
proof (induction d i e arbitrary: m es rule: worker_emits.induct)
  case (1 d i e)
  show ?case
  proof (cases "i <s e")
    case False
    with "1.prems" have "es = []"
      by (subst (asm) worker_emits.simps) simp
    with False show ?thesis
      by (subst map_worker_unfold) simp
  next
    case less: True
    show ?thesis
    proof (cases "unat (scast i :: size_t) < length d")
      case False
      with less "1.prems" show ?thesis
        by (subst (asm) worker_emits.simps) simp
    next
      case True
      with less "1.prems" obtain es' where rest: "worker_emits d (i + 1) e = Inr es'"
        and es: "es = map_function (d ! unat (scast i :: size_t)) @ es'"
        by (subst (asm) worker_emits.simps) (auto split: sum.splits)
      have "map_worker d m i e r \<longleftrightarrow>
          map_worker d (foldl push_pair m (map_function (d ! unat (scast i :: size_t)))) (i + 1) e r"
        using less True by (subst map_worker_unfold) simp
      also have "\<dots> \<longleftrightarrow>
          r = Returns (foldl push_pair
            (foldl push_pair m (map_function (d ! unat (scast i :: size_t)))) es')"
        using "1.IH" [OF less True rest] .
      finally show ?thesis by (simp add: es)
    qed
  qed
qed

lemma map_worker_undefined:
  "worker_emits d i e = Inl f \<Longrightarrow> map_worker d m i e r"
proof (induction d i e arbitrary: m rule: worker_emits.induct)
  case (1 d i e)
  show ?case
  proof (cases "i <s e")
    case False
    with "1.prems" show ?thesis
      by (subst (asm) worker_emits.simps) simp
  next
    case less: True
    show ?thesis
    proof (cases "unat (scast i :: size_t) < length d")
      case False
      with less show ?thesis by (rule map_worker.reads_outside)
    next
      case True
      with less "1.prems" have "worker_emits d (i + 1) e = Inl f"
        by (subst (asm) worker_emits.simps) (auto split: sum.splits)
      then have "map_worker d (foldl push_pair m (map_function (d ! unat (scast i :: size_t))))
          (i + 1) e r"
        by (rule "1.IH" [OF less True])
      with less True show ?thesis by (rule map_worker.maps)
    qed
  qed
qed

lemma worker_emits_range:
  assumes "a \<le> b" and "b \<le> length d" and "b < 2 ^ 31"
  shows "worker_emits d (word_of_nat a) (word_of_nat b) =
     Inr (concat (map map_function (take (b - a) (drop a d))))"
  using assms
proof (induction "b - a" arbitrary: a)
  case 0
  then have "a = b" by simp
  then show ?case by (subst worker_emits.simps) (simp add: word_sless_alt)
next
  case (Suc n)
  then have lt: "a < b" and a: "a < 2 ^ 31" by simp_all
  have less: "(word_of_nat a :: c_int) <s word_of_nat b"
    using lt a Suc.prems by (simp add: sless_of_nat)
  have "unat (scast (word_of_nat a :: c_int) :: size_t) = a"
    using a by (simp add: scast_of_nat unat_of_nat_size)
  moreover have in_range: "a < length d" using lt Suc.prems by simp
  moreover have "(word_of_nat a :: c_int) + 1 = word_of_nat (Suc a)" by simp
  moreover have "worker_emits d (word_of_nat (Suc a)) (word_of_nat b) =
      Inr (concat (map map_function (take (b - Suc a) (drop (Suc a) d))))"
    using Suc.hyps(1) [of "Suc a"] Suc.hyps(2) lt Suc.prems by simp
  moreover have "take (b - a) (drop a d) = d ! a # take (b - Suc a) (drop (Suc a) d)"
  proof -
    have "drop a d = d ! a # drop (Suc a) d"
      using in_range by (simp add: Cons_nth_drop_Suc)
    moreover have "b - a = Suc (b - Suc a)" using lt by simp
    ultimately show ?thesis by simp
  qed
  ultimately show ?case
    by (subst worker_emits.simps) (simp only: less if_True, simp)
qed

lemma collect_Inr:
  "\<forall>x \<in> set xs. f x = Inr (g x) \<Longrightarrow> collect (map f xs) = Inr (map g xs)"
  by (induction xs) simp_all

lemma range_bounds:
  assumes "0 <s T" and "r \<in> set (thread_ranges R T)"
  shows "fst r \<le> snd r \<and> snd r \<le> unat R"
proof -
  let ?t = "nat (sint T)" and ?q = "unat R div nat (sint T)"
  from assms obtain k where k: "k < ?t"
    and r: "r = (k * ?q, if Suc k = ?t then unat R else Suc k * ?q)"
    by (auto simp: thread_ranges_nat)
  have "j * ?q \<le> unat R" if "j \<le> ?t" for j
  proof -
    have "j * ?q \<le> ?t * ?q" using that by simp
    also have "\<dots> \<le> unat R" by (simp add: mult.commute)
    finally show ?thesis .
  qed
  from this [of k] this [of "Suc k"] k show ?thesis by (simp add: r)
qed

lemma thread_emits_range:
  assumes "0 <s T" and "length d < 2 ^ 31" and "r \<in> set (spawn_loop (word_of_nat (length d)) T 0)"
  shows "thread_emits d r =
     Inr (concat (map map_function (take (unat (snd r) - unat (fst r)) (drop (unat (fst r)) d))))"
proof -
  have R: "unat (word_of_nat (length d) :: size_t) = length d"
    using assms(2) by (simp add: unat_of_nat_size)
  have "(unat (fst r), unat (snd r)) \<in> set (thread_ranges (word_of_nat (length d)) T)"
    using assms(3) by (force simp: thread_ranges_def)
  from range_bounds [OF assms(1) this]
  have le: "unat (fst r) \<le> unat (snd r)" and len: "unat (snd r) \<le> length d"
    by (simp_all add: R)
  have "thread_emits d r =
      worker_emits d (ucast (word_of_nat (unat (fst r)) :: size_t))
        (ucast (word_of_nat (unat (snd r)) :: size_t))"
    by (simp add: thread_emits_def)
  also have "\<dots> = worker_emits d (word_of_nat (unat (fst r))) (word_of_nat (unat (snd r)))"
    by (simp only: ucast_of_nat)
  also have "\<dots> = Inr (concat (map map_function
      (take (unat (snd r) - unat (fst r)) (drop (unat (fst r)) d))))"
    using le len assms(2) by (intro worker_emits_range) simp_all
  finally show ?thesis .
qed

lemma chain_concat:
  "sorted (b # bs) \<Longrightarrow> last (b # bs) \<le> length d \<Longrightarrow>
   concat (map (\<lambda>r. take (snd r - fst r) (drop (fst r) d)) (zip (b # bs) bs)) =
     take (last (b # bs) - b) (drop b d)"
proof (induction bs arbitrary: b)
  case Nil
  show ?case by simp
next
  case (Cons c cs)
  from Cons.prems have bc: "b \<le> c" and sorted: "sorted (c # cs)"
    and len: "last (c # cs) \<le> length d" by simp_all
  have cl: "c \<le> last (c # cs)"
    using sorted by (cases cs) (auto simp: sorted_append dest: last_in_set)
  have "take (c - b) (drop b d) @ take (last (c # cs) - c) (drop c d) =
      take (last (c # cs) - b) (drop b d)"
  proof -
    have "drop c d = drop (c - b) (drop b d)" using bc by simp
    moreover have "last (c # cs) - b = (c - b) + (last (c # cs) - c)" using bc cl by simp
    ultimately show ?thesis by (simp only: take_add)
  qed
  then show ?case
    using Cons.IH [OF sorted len] by simp
qed

lemma concat_ranges:
  assumes "0 <s T" and "length d < 2 ^ 31"
  shows "concat (map (\<lambda>r. take (snd r - fst r) (drop (fst r) d))
     (thread_ranges (word_of_nat (length d)) T)) = d"
proof -
  let ?R = "word_of_nat (length d) :: size_t"
  let ?t = "nat (sint T)"
  let ?bs = "map (\<lambda>k. k * (length d div ?t)) [0..<?t]"
  have R: "unat ?R = length d" using assms(2) by (simp add: unat_of_nat_size)
  from assms have t: "0 < ?t" by (simp add: word_sless_alt)
  then obtain bs' where bs': "?bs = 0 # bs'"
    by (cases ?t) (simp_all add: upt_conv_Cons del: upt_Suc)
  have sorted: "sorted (0 # (bs' @ [length d]))"
    using boundaries_sorted [OF t, of "length d"] by (simp only: bs' append_Cons)
  have last: "last (0 # (bs' @ [length d])) \<le> length d" by simp
  have "thread_ranges ?R T = zip (?bs @ [length d]) (tl (?bs @ [length d]))"
    by (simp only: thread_ranges_nat [OF assms(1)] R ranges_as_chain [OF t])
  also have "\<dots> = zip (0 # (bs' @ [length d])) (bs' @ [length d])"
    by (simp add: bs')
  finally have "concat (map (\<lambda>r. take (snd r - fst r) (drop (fst r) d)) (thread_ranges ?R T))
      = take (last (0 # (bs' @ [length d])) - 0) (drop 0 d)"
    by (simp only: chain_concat [OF sorted last])
  then show ?thesis by simp
qed

lemma concat_map_concat:
  "concat (map (\<lambda>r. concat (map f (g r))) rs) = concat (map f (concat (map g rs)))"
  by (induction rs) simp_all

lemma pending_emits:
  assumes "0 <s T" and "length d < 2 ^ 31"
  shows "collect (map (thread_emits d) (spawn_loop (word_of_nat (length d)) T 0)) =
     Inr (map (\<lambda>r. concat (map map_function (take (snd r - fst r) (drop (fst r) d))))
            (thread_ranges (word_of_nat (length d)) T))"
proof -
  have "collect (map (thread_emits d) (spawn_loop (word_of_nat (length d)) T 0)) =
      Inr (map (\<lambda>r. concat (map map_function
             (take (unat (snd r) - unat (fst r)) (drop (unat (fst r)) d))))
           (spawn_loop (word_of_nat (length d)) T 0))"
    by (rule collect_Inr) (simp add: thread_emits_range [OF assms])
  then show ?thesis by (simp add: thread_ranges_def comp_def)
qed

lemma concat_pending:
  assumes "0 <s T" and "length d < 2 ^ 31"
  shows "concat (map (\<lambda>r. concat (map map_function (take (snd r - fst r) (drop (fst r) d))))
            (thread_ranges (word_of_nat (length d)) T)) = concat (map map_function d)"
proof -
  let ?rs = "thread_ranges (word_of_nat (length d)) T"
  let ?g = "\<lambda>r. take (snd r - fst r) (drop (fst r) d)"
  have "concat (map (\<lambda>r. concat (map map_function (?g r))) ?rs) =
      concat (map map_function (concat (map ?g ?rs)))"
    by (rule concat_map_concat)
  then show ?thesis by (simp only: concat_ranges [OF assms])
qed

subsection \<open>Indices outside the vector\<close>

lemma uint_scast: "uint (scast (i :: c_int) :: size_t) = sint i mod 2 ^ 64"
  by (simp only: scast_eq uint_word_of_int) simp

lemma unat_scast_nonneg:
  "0 \<le> sint (i :: c_int) \<Longrightarrow> unat (scast i :: size_t) = nat (sint i)"
proof -
  assume nonneg: "0 \<le> sint i"
  have "sint i < 2 ^ 31" using sint_lt [of i] by simp
  then have "sint i < 2 ^ 64" by simp
  with nonneg have "sint i mod 2 ^ 64 = sint i" by (rule mod_pos_pos_trivial)
  then show ?thesis by (simp only: unat_eq_nat_uint uint_scast)
qed

lemma unat_scast_neg:
  "sint (i :: c_int) < 0 \<Longrightarrow> 2 ^ 63 \<le> unat (scast i :: size_t)"
proof -
  assume neg: "sint i < 0"
  have lower: "- (2 ^ 31) \<le> sint i" using sint_ge [of i] by simp
  have "0 \<le> sint i + 2 ^ 64" and "sint i + 2 ^ 64 < 2 ^ 64"
    using neg lower by simp_all
  then have "(sint i + 2 ^ 64) mod 2 ^ 64 = sint i + 2 ^ 64"
    by (rule mod_pos_pos_trivial)
  moreover have "(sint i + 2 ^ 64) mod 2 ^ 64 = sint i mod 2 ^ 64"
    by (rule mod_add_self2)
  ultimately have "uint (scast i :: size_t) = sint i + 2 ^ 64"
    by (simp only: uint_scast)
  with lower have "2 ^ 63 \<le> uint (scast i :: size_t)" by simp
  then have "nat (2 ^ 63) \<le> nat (uint (scast i :: size_t))" by (rule nat_mono)
  then show ?thesis by (simp only: unat_eq_nat_uint) simp
qed

lemma index_in_range:
  assumes "length d < 2 ^ 63"
  shows "unat (scast (i :: c_int) :: size_t) < length d \<longleftrightarrow> 0 \<le> sint i \<and> sint i < int (length d)"
proof (cases "0 \<le> sint i")
  case True
  then show ?thesis by (auto simp: unat_scast_nonneg)
next
  case False
  then have "sint i < 0" by simp
  then have "2 ^ 63 \<le> unat (scast i :: size_t)" by (rule unat_scast_neg)
  with assms False show ?thesis by simp
qed

lemma worker_emits_fault_iff:
  "length d < 2 ^ 63 \<Longrightarrow>
   worker_emits d i e = Inl Undefined_behaviour \<longleftrightarrow>
     (\<exists>j. sint i \<le> j \<and> j < sint e \<and> (j < 0 \<or> int (length d) \<le> j))"
proof (induction d i e rule: worker_emits.induct)
  case (1 d i e)
  note len = \<open>length d < 2 ^ 63\<close>
  show ?case
  proof (cases "i <s e")
    case False
    then have "sint e \<le> sint i" by (simp add: word_sless_alt)
    then have "\<not> (\<exists>j. sint i \<le> j \<and> j < sint e \<and> (j < 0 \<or> int (length d) \<le> j))"
      by auto
    moreover have "worker_emits d i e = Inr []"
      using False by (subst worker_emits.simps) simp
    ultimately show ?thesis by simp
  next
    case less: True
    then have lt: "sint i < sint e" by (simp add: word_sless_alt)
    show ?thesis
    proof (cases "unat (scast i :: size_t) < length d")
      case False
      then have "sint i < 0 \<or> int (length d) \<le> sint i"
        using index_in_range [OF len, of i] by auto
      with lt have "\<exists>j. sint i \<le> j \<and> j < sint e \<and> (j < 0 \<or> int (length d) \<le> j)"
        by blast
      moreover have "worker_emits d i e = Inl Undefined_behaviour"
        using less False by (subst worker_emits.simps) simp
      ultimately show ?thesis by simp
    next
      case True
      then have ok: "0 \<le> sint i" "sint i < int (length d)"
        using index_in_range [OF len, of i] by simp_all
      have succ: "sint (i + 1) = sint i + 1" using less by (rule sint_succ)
      have "worker_emits d i e = Inl Undefined_behaviour \<longleftrightarrow>
          worker_emits d (i + 1) e = Inl Undefined_behaviour"
        using less True by (subst worker_emits.simps) (auto split: sum.splits)
      also have "\<dots> \<longleftrightarrow>
          (\<exists>j. sint (i + 1) \<le> j \<and> j < sint e \<and> (j < 0 \<or> int (length d) \<le> j))"
        using "1.IH" [OF less True len] .
      also have "\<dots> \<longleftrightarrow> (\<exists>j. sint i \<le> j \<and> j < sint e \<and> (j < 0 \<or> int (length d) \<le> j))"
      proof
        assume "\<exists>j. sint (i + 1) \<le> j \<and> j < sint e \<and> (j < 0 \<or> int (length d) \<le> j)"
        then obtain j where j: "sint i + 1 \<le> j" "j < sint e" "j < 0 \<or> int (length d) \<le> j"
          unfolding succ by blast
        then have "sint i \<le> j" by simp
        with j show "\<exists>j. sint i \<le> j \<and> j < sint e \<and> (j < 0 \<or> int (length d) \<le> j)"
          by blast
      next
        assume "\<exists>j. sint i \<le> j \<and> j < sint e \<and> (j < 0 \<or> int (length d) \<le> j)"
        then obtain j where j: "sint i \<le> j" "j < sint e" "j < 0 \<or> int (length d) \<le> j"
          by blast
        with ok have "j \<noteq> sint i" by auto
        with j have "sint (i + 1) \<le> j" unfolding succ by simp
        with j show "\<exists>j. sint (i + 1) \<le> j \<and> j < sint e \<and> (j < 0 \<or> int (length d) \<le> j)"
          by blast
      qed
      finally show ?thesis .
    qed
  qed
qed

section \<open>The map phase as a whole\<close>

lemma map_function_ones: "\<forall>p \<in> set (map_function r). snd p = 1"
  by (simp add: map_function_tokens)

lemma worker_emits_ones: "worker_emits d i e = Inr es \<Longrightarrow> \<forall>p \<in> set es. snd p = 1"
proof (induction d i e arbitrary: es rule: worker_emits.induct)
  case (1 d i e)
  show ?case
  proof (cases "i <s e \<and> unat (scast i :: size_t) < length d")
    case True
    with "1.prems" obtain es' where rest: "worker_emits d (i + 1) e = Inr es'"
      and es: "es = map_function (d ! unat (scast i :: size_t)) @ es'"
      by (subst (asm) worker_emits.simps) (auto split: sum.splits)
    from "1.IH" [OF _ _ rest] True have "\<forall>p \<in> set es'. snd p = 1" by simp
    then show ?thesis using map_function_ones by (auto simp: es)
  next
    case False
    with "1.prems" have "es = []"
      by (subst (asm) worker_emits.simps) (auto split: if_splits)
    then show ?thesis by simp
  qed
qed

lemma collect_Inr_D:
  "collect xs = Inr ys \<Longrightarrow> y \<in> set ys \<Longrightarrow> \<exists>x \<in> set xs. x = Inr y"
proof (induction xs arbitrary: ys)
  case Nil
  then show ?case by simp
next
  case (Cons x xs)
  then show ?case by (auto split: sum.splits)
qed

lemma map_phase_Inr:
  assumes "map_phase d T sched = Inr m"
  obtains pending where
    "collect (map (thread_emits d) (spawn_loop (word_of_nat (length d)) T 0)) = Inr pending"
    and "m = foldl push_pair [] (interleave sched pending)"
  using assms by (auto simp: map_phase_def split: sum.splits)

lemma map_phase_ones:
  assumes "map_phase d T sched = Inr m"
  obtains es where "m = foldl push_pair [] es" and "\<forall>p \<in> set es. snd p = 1"
proof -
  from assms obtain pending where
    pending: "collect (map (thread_emits d) (spawn_loop (word_of_nat (length d)) T 0)) = Inr pending"
    and m: "m = foldl push_pair [] (interleave sched pending)"
    by (rule map_phase_Inr)
  have "\<forall>p \<in> set es. snd p = 1" if "es \<in> set pending" for es
  proof -
    from collect_Inr_D [OF pending that] obtain r where "thread_emits d r = Inr es" by auto
    then show ?thesis by (auto simp: thread_emits_def dest: worker_emits_ones)
  qed
  then have "\<forall>p \<in> set (concat pending). snd p = 1" by auto
  moreover have "set (interleave sched pending) = set (concat pending)"
    using mset_interleave [of sched pending] by (rule mset_eq_setD)
  ultimately have "\<forall>p \<in> set (interleave sched pending). snd p = 1" by simp
  with m show ?thesis by (rule that)
qed

lemma sorted_intermediate: "sorted_wrt (<) (map fst (foldl push_pair [] es))"
  by (rule sorted_foldl_push_pair) simp

lemma map_phase_sorted: "map_phase d T sched = Inr m \<Longrightarrow> sorted_wrt (<) (map fst m)"
  by (erule map_phase_Inr) (simp add: sorted_intermediate)

lemma map_phase_emits:
  assumes "0 <s T" and "length d < 2 ^ 31"
  obtains es where "map_phase d T sched = Inr (foldl push_pair [] es)"
    and "mset es = mset (concat (map map_function d))"
proof -
  let ?pending = "map (\<lambda>r. concat (map map_function (take (snd r - fst r) (drop (fst r) d))))
      (thread_ranges (word_of_nat (length d)) T)"
  have "map_phase d T sched = Inr (foldl push_pair [] (interleave sched ?pending))"
    by (simp add: map_phase_def pending_emits [OF assms])
  moreover have "mset (interleave sched ?pending) = mset (concat (map map_function d))"
    by (simp only: mset_interleave concat_pending [OF assms])
  ultimately show ?thesis by (rule that)
qed

lemma interleave_no_threads: "interleave sched [] = []"
  by (induction sched) simp_all

lemma no_threads: "\<not> 0 <s T \<Longrightarrow> map_phase d T sched = Inr []"
proof -
  assume "\<not> 0 <s T"
  then have "spawn_loop (word_of_nat (length d)) T 0 = []"
    by (subst spawn_loop.simps) simp
  then show ?thesis by (simp add: map_phase_def interleave_no_threads)
qed


lemma count_permuted:
  "mset es = mset es' \<Longrightarrow> length (filter P es) = length (filter P es')"
proof -
  assume "mset es = mset es'"
  then have "size (filter_mset P (mset es)) = size (filter_mset P (mset es'))" by simp
  then show ?thesis by (simp only: mset_filter [symmetric] size_mset)
qed


subsection \<open>One thread\<close>

text \<open>
  With one thread the map phase is \<^verbatim>\<open>map_worker\<close> on the whole corpus and the empty
  map.
\<close>

lemma interleave_single: "interleave sched [es] = es"
proof (induction sched arbitrary: es)
  case Nil
  show ?case by simp
next
  case (Cons k sched)
  show ?case
  proof (cases k)
    case 0
    then show ?thesis by (cases es) (simp_all add: Cons.IH)
  next
    case (Suc k')
    then show ?thesis by (simp add: Cons.IH)
  qed
qed

lemma spawn_loop_single: "spawn_loop sz 1 0 = [(0, sz)]"
proof -
  have "(0 :: c_int) <s 1" by (simp add: word_sless_alt)
  moreover have "\<not> (1 :: c_int) <s 1" by simp
  ultimately show ?thesis
    by (subst spawn_loop.simps, subst spawn_loop.simps)
      (simp add: range_start_def range_end_def)
qed

lemma single_thread_is_worker:
  assumes "length d < 2 ^ 31"
  shows "map_phase d 1 sched = Inr (foldl push_pair [] (concat (map map_function d))) \<and>
     (\<forall>r. map_worker d [] 0 (word_of_nat (length d)) r \<longleftrightarrow>
        r = Returns (foldl push_pair [] (concat (map map_function d))))"
proof -
  have emits: "worker_emits d (word_of_nat 0) (word_of_nat (length d)) =
      Inr (concat (map map_function (take (length d - 0) (drop 0 d))))"
    using assms by (intro worker_emits_range) simp_all
  then have emits': "worker_emits d 0 (word_of_nat (length d)) = Inr (concat (map map_function d))"
    by simp
  have "thread_emits d (0, word_of_nat (length d)) = Inr (concat (map map_function d))"
    by (simp add: thread_emits_def ucast_of_nat emits')
  then have "map_phase d 1 sched = Inr (foldl push_pair [] (concat (map map_function d)))"
    by (simp add: map_phase_def spawn_loop_single interleave_single)
  with map_worker_emits [OF emits'] show ?thesis by simp
qed

section \<open>The claims about the partition\<close>

text \<open>
  Claim C3. For every record count \<open>R\<close> and every worker count \<open>T \<ge> 1\<close> the
  coordinator computes exactly \<open>T\<close> ranges; every index below \<open>R\<close> lies in exactly
  one of them and no other index lies in any (no gap, no overlap, nothing outside
  \<open>[0, R)\<close>), also when \<open>R = 0\<close> or \<open>T > R\<close>; each of the first \<open>T - 1\<close> ranges has
  \<open>R div T\<close> elements and the last one has the remainder as well.
\<close>

theorem partition_exact:
  assumes "0 <s T"
  shows "length (thread_ranges R T) = nat (sint T) \<and>
    (\<forall>j. length (filter (\<lambda>r. covers r j) (thread_ranges R T)) = (if j < unat R then 1 else 0)) \<and>
    (\<forall>k. Suc k < nat (sint T) \<longrightarrow>
       snd (thread_ranges R T ! k) = fst (thread_ranges R T ! k) + unat R div nat (sint T)) \<and>
    snd (last (thread_ranges R T)) =
      fst (last (thread_ranges R T)) + unat R div nat (sint T) + unat R mod nat (sint T)"
proof -
  let ?t = "nat (sint T)" and ?r = "unat R"
  let ?f = "\<lambda>k. (k * (?r div ?t), if Suc k = ?t then ?r else Suc k * (?r div ?t))"
  from assms have t: "0 < ?t" by (simp add: word_sless_alt)
  have ranges: "thread_ranges R T = map ?f [0..<?t]"
    by (rule thread_ranges_nat [OF assms])
  have len: "length (thread_ranges R T) = ?t"
    by (simp add: ranges)
  have first: "snd (thread_ranges R T ! k) = fst (thread_ranges R T ! k) + ?r div ?t"
    if "Suc k < ?t" for k
    using that by (simp add: ranges)
  have "last (thread_ranges R T) = ?f (?t - 1)"
    using t by (simp add: ranges last_map)
  moreover have "?r = (?t - 1) * (?r div ?t) + ?r div ?t + ?r mod ?t"
  proof -
    have "(?t - 1) * (?r div ?t) + ?r div ?t = ?t * (?r div ?t)"
      using t by (cases ?t) simp_all
    then show ?thesis by simp
  qed
  ultimately have final: "snd (last (thread_ranges R T)) =
      fst (last (thread_ranges R T)) + ?r div ?t + ?r mod ?t"
    using t by simp
  from len covering_count [OF assms] first final show ?thesis by blast
qed

theorem partition_exact_witness:
  "0 <s (3 :: c_int) \<and> thread_ranges 10 3 = [(0, 3), (3, 6), (6, 10)] \<and>
   length (thread_ranges 10 3) = nat (sint (3 :: c_int)) \<and>
   length (filter (\<lambda>r. covers r 7) (thread_ranges 10 3)) = 1 \<and>
   length (filter (\<lambda>r. covers r 10) (thread_ranges 10 3)) = 0 \<and>
   snd (last (thread_ranges 10 3)) = fst (last (thread_ranges 10 3)) + 3 + 1"
proof -
  have T: "0 <s (3 :: c_int)" by code_simp
  have ranges: "thread_ranges 10 3 = [(0, 3), (3, 6), (6, 10)]" by code_simp
  from partition_exact [OF T, of 10] T ranges show ?thesis
    by (simp add: covers_def)
qed

text \<open>
  Claim C5, as the code has it. When there are fewer records than workers, \<open>R div T\<close>
  is 0: the first \<open>T - 1\<close> ranges are the empty range \<open>[0, 0)\<close> (zero work, not an
  error) and the last range is \<open>[0, R)\<close>, which carries all the records.
\<close>

theorem fewer_records_than_workers:
  assumes "0 <s T" and "unat R < nat (sint T)"
  shows "thread_ranges R T = replicate (nat (sint T) - 1) (0, 0) @ [(0, unat R)]"
proof -
  let ?t = "nat (sint T)" and ?r = "unat R"
  from assms(2) obtain t' where t': "?t = Suc t'" by (cases ?t) auto
  have q: "?r div ?t = 0" using assms(2) by simp
  have "thread_ranges R T = map (\<lambda>k. (0, if Suc k = ?t then ?r else 0)) [0..<?t]"
    by (simp add: thread_ranges_nat [OF assms(1)] q)
  also have "\<dots> = map (\<lambda>k. (0, if k = t' then ?r else 0)) [0..<t'] @ [(0, ?r)]"
    by (simp add: t')
  also have "map (\<lambda>k. (0, if k = t' then ?r else 0)) [0..<t'] = map (\<lambda>k. (0, 0)) [0..<t']"
    by (rule map_cong) simp_all
  also have "\<dots> = replicate t' (0, 0)"
    by (simp add: map_replicate_const)
  finally show ?thesis by (simp add: t')
qed

theorem fewer_records_than_workers_witness:
  "0 <s (4 :: c_int) \<and> unat (2 :: size_t) < nat (sint (4 :: c_int)) \<and>
   thread_ranges 2 4 = replicate 3 (0, 0) @ [(0, 2)]"
proof -
  have T: "0 <s (4 :: c_int)" by code_simp
  have R: "unat (2 :: size_t) < nat (sint (4 :: c_int))" by simp
  from fewer_records_than_workers [OF T R] T R show ?thesis by simp
qed

text \<open>
  Claim C5, as the specification states it, fails: with 2 records and 4 workers it is
  the trailing range that carries both records, and the three earlier ranges are the
  empty ones.
\<close>

theorem trailing_range_carries_counterexample:
  "thread_ranges 2 4 = [(0, 0), (0, 0), (0, 0), (0, 2)]"
  by code_simp

text \<open>
  Claim C4 fails on the code. \<^verbatim>\<open>std::thread::hardware_concurrency()\<close> may return 0;
  \<^verbatim>\<open>main\<close> then neither coerces the worker count nor fails: the loop that creates
  the threads is not entered, the reduce phase runs on the empty map, nothing is
  printed and 0 is returned, whatever the corpus holds.
\<close>

theorem zero_parallelism_runs_silently:
  "main input_data 0 sched = Inr ([], 0)"
proof -
  have "spawn_loop (word_of_nat (length input_data)) 0 0 = []"
    by (subst spawn_loop.simps) simp
  then show ?thesis
    by (simp add: main_def final_result_def map_phase_def reduce_phase_def
        interleave_no_threads)
qed

section \<open>Permuted insertions\<close>

lemma cpp_map_eqI:
  assumes "sorted_wrt (<) (map fst xs)" and "sorted_wrt (<) (map fst ys)"
    and "map_of xs = map_of ys"
  shows "xs = (ys :: 'v cpp_map)"
proof -
  from assms(1,2) have sx: "sorted (map fst xs)" and dx: "distinct (map fst xs)"
    and sy: "sorted (map fst ys)" and dy: "distinct (map fst ys)"
    by (simp_all add: strict_sorted_iff)
  from dx dy assms(3) have sets: "set xs = set ys"
    by (simp add: map_of_inject_set)
  from dx have "inj_on fst (set xs)" by (simp add: distinct_map)
  then have "inj_on fst (set xs \<union> set ys)" by (simp add: sets)
  then show ?thesis using sx dx sy dy sets by (rule map_sorted_distinct_set_unique)
qed

lemma sorted_reduced: "sorted_wrt (<) (map fst (reduce_phase (foldl push_pair [] es)))"
  by (simp add: keys_reduce_phase sorted_intermediate)

lemma final_lookup:
  "map_of (reduce_phase (foldl push_pair [] es)) w =
     (if filter (\<lambda>p. fst p = w) es = [] then None
      else Some (sum_list (map snd (filter (\<lambda>p. fst p = w) es))))"
  by (simp add: map_of_reduce_phase [OF sorted_intermediate] intermediate_lookup
      reduce_function_sum)

lemma reduce_permuted:
  assumes "mset es = mset es'"
  shows "reduce_phase (foldl push_pair [] es) = reduce_phase (foldl push_pair [] es')"
proof (rule cpp_map_eqI [OF sorted_reduced sorted_reduced], rule ext)
  fix w
  let ?P = "\<lambda>p :: string \<times> c_int. fst p = w"
  have "mset (map snd (filter ?P es)) = mset (map snd (filter ?P es'))"
    using assms by (simp only: mset_map mset_filter)
  then have "sum_mset (mset (map snd (filter ?P es))) = sum_mset (mset (map snd (filter ?P es')))"
    by simp
  then have sums: "sum_list (map snd (filter ?P es)) = sum_list (map snd (filter ?P es'))"
    by (simp only: sum_mset_sum_list)
  have "length (filter ?P es) = length (filter ?P es')"
    using assms by (rule count_permuted)
  then have "filter ?P es = [] \<longleftrightarrow> filter ?P es' = []"
    by (simp only: length_0_conv [symmetric])
  with sums show "map_of (reduce_phase (foldl push_pair [] es)) w =
      map_of (reduce_phase (foldl push_pair [] es')) w"
    by (simp only: final_lookup)
qed

lemma final_result_schedule:
  "final_result d T sched = final_result d T sched'"
proof (cases "collect (map (thread_emits d) (spawn_loop (word_of_nat (length d)) T 0))")
  case (Inl f)
  then show ?thesis by (simp add: final_result_def map_phase_def)
next
  case (Inr pending)
  have "reduce_phase (foldl push_pair [] (interleave sched pending)) =
      reduce_phase (foldl push_pair [] (interleave sched' pending))"
    by (rule reduce_permuted) (simp only: mset_interleave)
  then show ?thesis
    by (simp add: final_result_def map_phase_def Inr)
qed

section \<open>The claims about the run\<close>



text \<open>
  Claim C6. Reducing the intermediate aggregate gives the same final aggregate for
  every ordering of the same insertions, whatever the counts inserted, and hence the
  final aggregate of a run does not depend on the schedule of the workers.
\<close>

theorem order_independence:
  "(mset es = mset es' \<longrightarrow>
      reduce_phase (foldl push_pair [] es) = reduce_phase (foldl push_pair [] es')) \<and>
   final_result input_data T sched = final_result input_data T sched'"
  using reduce_permuted [of es es'] final_result_schedule [of input_data T sched sched']
  by blast

theorem order_independence_witness:
  "mset [(''b'', 1 :: c_int), (''a'', 1), (''b'', 1)] = mset [(''a'', 1), (''b'', 1), (''b'', 1)] \<and>
   reduce_phase (foldl push_pair [] [(''b'', 1), (''a'', 1), (''b'', 1)]) = [(''a'', 1), (''b'', 2)] \<and>
   reduce_phase (foldl push_pair [] [(''a'', 1), (''b'', 1), (''b'', 1)]) = [(''a'', 1), (''b'', 2)] \<and>
   final_result [''b a'', ''A.''] 2 [1, 0] = final_result [''b a'', ''A.''] 2 [0, 0, 1]"
proof -
  have perm: "mset [(''b'', 1 :: c_int), (''a'', 1), (''b'', 1)] =
      mset [(''a'', 1), (''b'', 1), (''b'', 1)]"
    by simp
  have run: "reduce_phase (foldl push_pair [] [(''a'', 1), (''b'', 1), (''b'', 1)]) =
      [(''a'', 1), (''b'', 2)]"
    by code_simp
  from order_independence [of "[(''b'', 1), (''a'', 1), (''b'', 1)]"
      "[(''a'', 1), (''b'', 1), (''b'', 1)]" "[''b a'', ''A.'']" 2 "[1, 0]" "[0, 0, 1]"]
    perm run
  show ?thesis by simp
qed

text \<open>
  Claim C7. When \<^verbatim>\<open>main\<close> completes, it returns 0 and has written one line
  \<open>word: count\<close> for each entry of the final aggregate, in the order of the entries,
  whose words are strictly ascending in the lexicographic order (so each word has one
  line); and it does complete when the corpus has fewer than \<open>2\<^sup>3\<^sup>1\<close> records.
\<close>

theorem report_sorted:
  "(main input_data T sched = Inr (out, status) \<longrightarrow>
      status = 0 \<and>
      (\<exists>fin. final_result input_data T sched = Inr fin \<and>
         out = map (\<lambda>e. fst e @ '': '' @ show_int (snd e)) fin \<and>
         sorted_wrt (<) (map fst fin))) \<and>
   (length input_data < 2 ^ 31 \<longrightarrow> (\<exists>lines. main input_data T sched = Inr (lines, 0)))"
proof (intro conjI impI)
  assume run: "main input_data T sched = Inr (out, status)"
  then obtain fin where fin: "final_result input_data T sched = Inr fin"
    and out: "out = map print_line fin" and status: "status = 0"
    by (auto simp: main_def split: sum.splits)
  from fin obtain m where m: "map_phase input_data T sched = Inr m"
    and reduced: "fin = reduce_phase m"
    by (auto simp: final_result_def split: sum.splits)
  from m have "sorted_wrt (<) (map fst m)" by (rule map_phase_sorted)
  then have "sorted_wrt (<) (map fst fin)" by (simp add: reduced keys_reduce_phase)
  moreover have "map print_line fin = map (\<lambda>e. fst e @ '': '' @ show_int (snd e)) fin"
    by (simp add: print_line_def)
  ultimately show "\<exists>fin. final_result input_data T sched = Inr fin \<and>
      out = map (\<lambda>e. fst e @ '': '' @ show_int (snd e)) fin \<and> sorted_wrt (<) (map fst fin)"
    using fin out by auto
  show "status = 0" by (rule status)
next
  assume len: "length input_data < 2 ^ 31"
  have "\<exists>m. map_phase input_data T sched = Inr m"
  proof (cases "0 <s T")
    case True
    then show ?thesis using len by (rule map_phase_emits) blast
  next
    case False
    then show ?thesis by (simp add: no_threads)
  qed
  then show "\<exists>lines. main input_data T sched = Inr (lines, 0)"
    by (auto simp: main_def final_result_def)
qed

theorem report_sorted_witness:
  "main test_sentences 4 [3, 1, 0, 2, 2, 1] =
     Inr ([''a: 2'', ''blue: 1'', ''ends: 2'', ''is: 4'', ''one: 1'', ''red: 1'',
           ''sentence: 4'', ''that: 2'', ''this: 4'', ''two: 1'', ''with: 2''], 0) \<and>
   sorted_wrt (<) [''a'', ''blue'', ''ends'', ''is'', ''one'', ''red'',
           ''sentence'', ''that'', ''this'', ''two'', ''with''] \<and>
   length test_sentences < 2 ^ 31"
proof -
  have run: "main test_sentences 4 [3, 1, 0, 2, 2, 1] =
     Inr ([''a: 2'', ''blue: 1'', ''ends: 2'', ''is: 4'', ''one: 1'', ''red: 1'',
           ''sentence: 4'', ''that: 2'', ''this: 4'', ''two: 1'', ''with: 2''], 0)"
    by code_simp
  have len: "length test_sentences < 2 ^ 31" by (simp add: test_sentences_def)
  from report_sorted [of test_sentences 4 "[3, 1, 0, 2, 2, 1]"
      "[''a: 2'', ''blue: 1'', ''ends: 2'', ''is: 4'', ''one: 1'', ''red: 1'',
        ''sentence: 4'', ''that: 2'', ''this: 4'', ''two: 1'', ''with: 2'']" 0] run len
  show ?thesis by simp
qed

text \<open>
  Claim C10. After the map phase every integer in the lists of the intermediate
  aggregate is 1, and the final aggregate maps each word to the length of its list (as
  an \<^verbatim>\<open>int\<close>; read as an integer it is the length whenever that is below
  \<open>2\<^sup>3\<^sup>1\<close>).
\<close>

theorem counts_are_ones:
  assumes "map_phase input_data T sched = Inr m"
  shows "\<forall>e \<in> set m.
     (\<forall>v \<in> set (snd e). v = 1) \<and>
     map_of (reduce_phase m) (fst e) = Some (word_of_nat (length (snd e))) \<and>
     (length (snd e) < 2 ^ 31 \<longrightarrow> sint (reduce_function (snd e)) = int (length (snd e)))"
proof
  fix e
  assume e: "e \<in> set m"
  from assms obtain es where m: "m = foldl push_pair [] es" and ones: "\<forall>p \<in> set es. snd p = 1"
    by (rule map_phase_ones)
  have sorted: "sorted_wrt (<) (map fst m)" using assms by (rule map_phase_sorted)
  then have "distinct (map fst m)" by (simp add: strict_sorted_iff)
  with e have entry: "map_of m (fst e) = Some (snd e)" by simp
  then have "snd e = map snd (filter (\<lambda>p. fst p = fst e) es)"
    by (simp add: m intermediate_lookup split: if_splits)
  with ones have all: "\<forall>v \<in> set (snd e). v = 1" by auto
  moreover have "map_of (reduce_phase m) (fst e) = Some (word_of_nat (length (snd e)))"
    using entry by (simp add: map_of_reduce_phase [OF sorted] reduce_function_ones [OF all])
  moreover have "sint (reduce_function (snd e)) = int (length (snd e))"
    if "length (snd e) < 2 ^ 31"
    using all that by (rule sint_reduce_function_ones)
  ultimately show "(\<forall>v \<in> set (snd e). v = 1) \<and>
     map_of (reduce_phase m) (fst e) = Some (word_of_nat (length (snd e))) \<and>
     (length (snd e) < 2 ^ 31 \<longrightarrow> sint (reduce_function (snd e)) = int (length (snd e)))"
    by blast
qed

theorem counts_are_ones_witness:
  "map_phase test_sentences 4 [3, 1, 0, 2, 2, 1] =
     Inr [(''a'', [1, 1]), (''blue'', [1]), (''ends'', [1, 1]), (''is'', [1, 1, 1, 1]),
          (''one'', [1]), (''red'', [1]), (''sentence'', [1, 1, 1, 1]), (''that'', [1, 1]),
          (''this'', [1, 1, 1, 1]), (''two'', [1]), (''with'', [1, 1])] \<and>
   reduce_phase [(''a'', [1, 1]), (''blue'', [1]), (''ends'', [1, 1]), (''is'', [1, 1, 1, 1]),
          (''one'', [1]), (''red'', [1]), (''sentence'', [1, 1, 1, 1]), (''that'', [1, 1]),
          (''this'', [1, 1, 1, 1]), (''two'', [1]), (''with'', [1, 1])] =
     [(''a'', 2), (''blue'', 1), (''ends'', 2), (''is'', 4), (''one'', 1), (''red'', 1),
      (''sentence'', 4), (''that'', 2), (''this'', 4), (''two'', 1), (''with'', 2)] \<and>
   sint (reduce_function [1, 1, 1, 1]) = int (length [1, 1, 1, 1 :: c_int])"
proof -
  have run: "map_phase test_sentences 4 [3, 1, 0, 2, 2, 1] =
     Inr [(''a'', [1, 1]), (''blue'', [1]), (''ends'', [1, 1]), (''is'', [1, 1, 1, 1]),
          (''one'', [1]), (''red'', [1]), (''sentence'', [1, 1, 1, 1]), (''that'', [1, 1]),
          (''this'', [1, 1, 1, 1]), (''two'', [1]), (''with'', [1, 1])]"
    by code_simp
  have reduced: "reduce_phase [(''a'', [1, 1]), (''blue'', [1]), (''ends'', [1, 1]),
          (''is'', [1, 1, 1, 1]), (''one'', [1]), (''red'', [1]), (''sentence'', [1, 1, 1, 1]),
          (''that'', [1, 1]), (''this'', [1, 1, 1, 1]), (''two'', [1]), (''with'', [1, 1])] =
     [(''a'', 2), (''blue'', 1), (''ends'', 2), (''is'', 4), (''one'', 1), (''red'', 1),
      (''sentence'', 4), (''that'', 2), (''this'', 4), (''two'', 1), (''with'', 2)]"
    by code_simp
  from counts_are_ones [OF run] run reduced show ?thesis
    by simp
qed

section \<open>The claim about ranges outside the corpus\<close>

text \<open>
  Claim C9, as the code has it. \<^verbatim>\<open>map_worker\<close> has no assertion and no bounds
  check. Given a range whose indices all lie in \<open>[0, R)\<close> it has one behaviour: it
  returns, having appended the pairs of the records of the range in their order. Given
  a range that contains an index outside \<open>[0, R)\<close> it reaches the unchecked read
  \<^verbatim>\<open>input_data[i]\<close> at the first such index, where the behaviour of the program is
  undefined: every outcome is possible, a normal return as much as an abort, so a
  failure is not guaranteed. (A vector holds fewer than \<open>2\<^sup>6\<^sup>3\<close> strings.)
\<close>

theorem worker_unchecked_access:
  assumes "length input_data < 2 ^ 63"
  shows
    "((\<exists>j. sint start \<le> j \<and> j < sint end' \<and> (j < 0 \<or> int (length input_data) \<le> j)) \<longrightarrow>
        (\<forall>r. map_worker input_data m start end' r)) \<and>
     (\<not> (\<exists>j. sint start \<le> j \<and> j < sint end' \<and> (j < 0 \<or> int (length input_data) \<le> j)) \<longrightarrow>
        (\<exists>es. worker_emits input_data start end' = Inr es \<and>
           (\<forall>r. map_worker input_data m start end' r \<longleftrightarrow> r = Returns (foldl push_pair m es))))"
proof (intro conjI impI)
  assume "\<exists>j. sint start \<le> j \<and> j < sint end' \<and> (j < 0 \<or> int (length input_data) \<le> j)"
  then have "worker_emits input_data start end' = Inl Undefined_behaviour"
    by (simp only: worker_emits_fault_iff [OF assms])
  then show "\<forall>r. map_worker input_data m start end' r"
    by (blast intro: map_worker_undefined)
next
  assume "\<not> (\<exists>j. sint start \<le> j \<and> j < sint end' \<and> (j < 0 \<or> int (length input_data) \<le> j))"
  then have "worker_emits input_data start end' \<noteq> Inl Undefined_behaviour"
    by (simp only: worker_emits_fault_iff [OF assms]) simp
  then obtain es where es: "worker_emits input_data start end' = Inr es"
    by (cases "worker_emits input_data start end'") (auto intro: fault.exhaust)
  then have "\<forall>r. map_worker input_data m start end' r \<longleftrightarrow> r = Returns (foldl push_pair m es)"
    by (simp add: map_worker_emits)
  with es show "\<exists>es. worker_emits input_data start end' = Inr es \<and>
      (\<forall>r. map_worker input_data m start end' r \<longleftrightarrow> r = Returns (foldl push_pair m es))"
    by blast
qed

theorem worker_unchecked_access_witness:
  "length [''a''] < (2 :: nat) ^ 63 \<and>
   sint (- 1 :: c_int) \<le> - 1 \<and> (- 1 :: int) < sint (0 :: c_int) \<and> (- 1 :: int) < 0 \<and>
   map_worker [''a''] [] (- 1) 0 Aborts \<and>
   map_worker [''a''] [] (- 1) 0 (Returns [(''a'', [1])]) \<and>
   \<not> (\<exists>j. sint (0 :: c_int) \<le> j \<and> j < sint (1 :: c_int) \<and> (j < 0 \<or> int (length [''a'']) \<le> j)) \<and>
   worker_emits [''a''] 0 1 = Inr [(''a'', 1)] \<and>
   map_worker [''a''] [] 0 1 (Returns [(''a'', [1])]) \<and>
   \<not> map_worker [''a''] [] 0 1 Aborts \<and>
   \<not> map_worker [''a''] [] 0 1 (Returns [])"
proof -
  have len: "length [''a''] < (2 :: nat) ^ 63" by simp
  have outside: "\<exists>j. sint (- 1 :: c_int) \<le> j \<and> j < sint (0 :: c_int) \<and>
      (j < 0 \<or> int (length [''a'']) \<le> j)"
    by (rule exI [of _ "- 1"]) simp
  have inside: "\<not> (\<exists>j. sint (0 :: c_int) \<le> j \<and> j < sint (1 :: c_int) \<and>
      (j < 0 \<or> int (length [''a'']) \<le> j))"
    by simp
  have emits: "worker_emits [''a''] 0 1 = Inr [(''a'', 1)]" by code_simp
  have appended: "foldl push_pair [] [(''a'', 1 :: c_int)] = [(''a'', [1])]" by code_simp
  from worker_unchecked_access [OF len, of "- 1" 0 "[]"] outside
  have any: "\<forall>r. map_worker [''a''] [] (- 1) 0 r" by blast
  from worker_unchecked_access [OF len, of 0 1 "[]"] inside emits appended
  have one: "\<forall>r. map_worker [''a''] [] 0 1 r \<longleftrightarrow> r = Returns [(''a'', [1])]" by simp
  from len any one inside emits show ?thesis by simp
qed

text \<open>
  Claim C9, as the specification states it, fails: on a corpus of one record and the
  range \<open>[-1, 0)\<close> the worker reads \<^verbatim>\<open>input_data[-1]\<close> unchecked, no assertion stops
  it, and it may return normally with nothing appended to the shared map.
\<close>

theorem worker_returns_counterexample:
  "map_worker [''a''] [] (- 1) 0 (Returns [])"
proof (rule map_worker.reads_outside)
  show "(- 1 :: c_int) <s 0" by code_simp
next
  have "length [''a''] < (2 :: nat) ^ 63" by simp
  then have "unat (scast (- 1 :: c_int) :: size_t) < length [''a''] \<longleftrightarrow>
      0 \<le> sint (- 1 :: c_int) \<and> sint (- 1 :: c_int) < int (length [''a''])"
    by (rule index_in_range)
  then show "\<not> unat (scast (- 1 :: c_int) :: size_t) < length [''a'']" by simp
qed

end
